theory Spec2Isabelle
  imports Main "HOL-Library.Sublist" "HOL-Library.AList"
begin

section \<open>The reaction tokenizer of \<^verbatim>\<open>tokenizer.py\<close>\<close>

text \<open>
  A shallow embedding of the class \<^verbatim>\<open>CustomTokenizer\<close>. Python strings are
  modelled as \<^typ>\<open>string\<close>, that is as lists of characters with code points 0 to 255;
  on that range the character classes of Python's \<^verbatim>\<open>re\<close> and \<^verbatim>\<open>str\<close>
  are the ones written out below. Token ids are Python integers, \<^typ>\<open>int\<close>.
  A dictionary is an association list in insertion order; \<^verbatim>\<open>d.get(k, default)\<close>
  is \<open>dict_get\<close>. Every \<^verbatim>\<open>raise\<close> of the source, and the
  \<^verbatim>\<open>IndexError\<close> of an out-of-range list subscript, is a value \<open>Inl e\<close>.
\<close>

subsection \<open>Python primitives\<close>

datatype error = ValueError string | IndexError

type_synonym ('k, 'v) dict = "('k \<times> 'v) list"

definition dict_get :: "('k, 'v) dict \<Rightarrow> 'k \<Rightarrow> 'v \<Rightarrow> 'v" where
  "dict_get d k dflt = (case map_of d k of Some v \<Rightarrow> v | None \<Rightarrow> dflt)"

text \<open>\<^verbatim>\<open>{v: k for k, v in d.items()}\<close>: the items are visited in insertion order and a
  later item overwrites the entry of an earlier one with the same value.\<close>

definition invert_dict :: "('k, 'v) dict \<Rightarrow> ('v, 'k) dict" where
  "invert_dict d = fold (\<lambda>(k, v) acc. AList.update v k acc) d []"

text \<open>\<^verbatim>\<open>xs[i]\<close> on a list: a negative index counts from the end, an index out of range raises.\<close>

definition list_index :: "'a list \<Rightarrow> int \<Rightarrow> error + 'a" where
  "list_index xs i =
     (if 0 \<le> i \<and> i < int (length xs) then Inr (xs ! nat i)
      else if - int (length xs) \<le> i \<and> i < 0 then Inr (xs ! nat (i + int (length xs)))
      else Inl IndexError)"

text \<open>\<^verbatim>\<open>text[i:j]\<close> for \<open>0 \<le> i\<close> and \<open>0 \<le> j\<close>: never raises, clips at the end.\<close>

definition slice :: "'a list \<Rightarrow> nat \<Rightarrow> nat \<Rightarrow> 'a list" where
  "slice xs i j = take (j - i) (drop i xs)"

text \<open>\<^verbatim>\<open>range(hi, lo, -1)\<close>: \<open>hi, hi - 1, \<dots>, lo + 1\<close>.\<close>

definition range_down :: "nat \<Rightarrow> nat \<Rightarrow> nat list" where
  "range_down hi lo = rev [Suc lo ..< Suc hi]"

text \<open>The white space of \<^verbatim>\<open>str.strip()\<close> and \<^verbatim>\<open>str.split()\<close> among the code points
  below 256: tab to carriage return, the four separators 0x1C to 0x1F, the space, NEL and
  the no-break space.\<close>

definition isspace :: "char \<Rightarrow> bool" where
  "isspace c \<longleftrightarrow> c \<in> set [CHR 0x09, CHR 0x0A, CHR 0x0B, CHR 0x0C, CHR 0x0D,
      CHR 0x1C, CHR 0x1D, CHR 0x1E, CHR 0x1F, CHR 0x20, CHR 0x85, CHR 0xA0]"

definition strip :: "string \<Rightarrow> string" where
  "strip s = rev (dropWhile isspace (rev (dropWhile isspace s)))"

text \<open>\<^verbatim>\<open>s.split()\<close>: the maximal runs of characters that are not white space, in order;
  \<open>cur\<close> is the run being read.\<close>

fun split_from :: "string \<Rightarrow> string \<Rightarrow> string list" where
  "split_from cur [] = (if cur = [] then [] else [cur])"
| "split_from cur (c # cs) =
     (if isspace c then (if cur = [] then split_from [] cs else cur # split_from [] cs)
      else split_from (cur @ [c]) cs)"

definition split :: "string \<Rightarrow> string list" where
  "split s = split_from [] s"

definition startswith :: "string \<Rightarrow> string \<Rightarrow> bool" where
  "startswith s p = prefix p s"

subsection \<open>The two regular expressions\<close>

text \<open>\<^verbatim>\<open>\d\<close> on code points below 256.\<close>

definition is_digit :: "char \<Rightarrow> bool" where
  "is_digit c \<longleftrightarrow> c \<in> set ''0123456789''"

text \<open>
  \<^verbatim>\<open>^\d+(\.\d+)*$\<close>, applied with \<^verbatim>\<open>match\<close> (anchored at position 0).
  \<open>digits1\<close> is \<^verbatim>\<open>\d+\<close>: it reads the longest run of digits, which must not be
  empty, and returns the rest. \<open>dot_groups\<close> is \<^verbatim>\<open>(\.\d+)*\<close>: it reads groups while
  one follows. \<open>at_dollar\<close> is \<^verbatim>\<open>$\<close> without the MULTILINE flag: the end of the
  string, or the position just before a newline that ends the string. Reading greedily
  loses no match: a shorter run of digits is followed by a digit and one group less by a
  dot, and \<^verbatim>\<open>$\<close> holds before neither.
\<close>

definition digits1 :: "string \<Rightarrow> string option" where
  "digits1 s = (if takeWhile is_digit s = [] then None else Some (dropWhile is_digit s))"

function dot_groups :: "string \<Rightarrow> string" where
  "dot_groups [] = []"
| "dot_groups (c # r) =
     (if c = CHR ''.'' then
        (case digits1 r of Some r' \<Rightarrow> dot_groups r' | None \<Rightarrow> c # r)
      else c # r)"
  by pat_completeness auto
termination
proof (relation "measure length")
  show "wf (measure length)" by simp
next
  fix c :: char and r r' :: string
  assume "digits1 r = Some r'"
  then have "r' = dropWhile is_digit r"
    by (simp add: digits1_def split: if_splits)
  then have "length r' \<le> length r"
    by (simp add: length_dropWhile_le)
  then show "(r', c # r) \<in> measure length" by simp
qed

definition at_dollar :: "string \<Rightarrow> bool" where
  "at_dollar rest \<longleftrightarrow> rest = [] \<or> rest = [CHR 0x0A]"

definition reaction_class_match :: "string \<Rightarrow> bool" where
  "reaction_class_match text =
     (case digits1 text of None \<Rightarrow> False | Some r \<Rightarrow> at_dollar (dot_groups r))"

text \<open>
  The alternatives of \<^verbatim>\<open>SMILES_REGEX\<close>, in the order the pattern lists them; the first
  one that matches at a position wins. The bracket group
  \<^verbatim>\<open>\[[^\[\]]{1,10}\]\<close> matches when the characters after the opening bracket up to
  the next bracket are between 1 and 10 and that next bracket is a closing one.
\<close>

definition bracket_atom :: "string \<Rightarrow> string option" where
  "bracket_atom s =
     (case s of
        [] \<Rightarrow> None
      | c # r \<Rightarrow>
          if c \<noteq> CHR ''['' then None
          else
            let body = takeWhile (\<lambda>x. x \<noteq> CHR ''['' \<and> x \<noteq> CHR '']'') r;
                rest = dropWhile (\<lambda>x. x \<noteq> CHR ''['' \<and> x \<noteq> CHR '']'') r
            in if 1 \<le> length body \<and> length body \<le> 10 \<and> take 1 rest = '']''
               then Some (CHR ''['' # body @ '']'') else None)"

definition elements :: "string list" where
  "elements = [''Br'', ''Cl'', ''Si'', ''Se'', ''Na'', ''Ca'', ''Li'', ''Mg'', ''Zn'',
     ''Cu'', ''Fe'', ''Mn'', ''Hg'', ''Ag'', ''Au'']"

text \<open>The class \<^verbatim>\<open>[B-IK-Zb-ik-z0-9=#$%@+\->\(\)/\\\.]\<close>: four letter ranges, the digits,
  and the characters \<^verbatim>\<open>= # $ % @ + - > ( ) / \ .\<close> (0x5C is the backslash).\<close>

definition in_range :: "char \<Rightarrow> char \<Rightarrow> char \<Rightarrow> bool" where
  "in_range lo hi c \<longleftrightarrow> (of_char lo :: nat) \<le> of_char c \<and> (of_char c :: nat) \<le> of_char hi"

definition single_char :: "char \<Rightarrow> bool" where
  "single_char c \<longleftrightarrow>
     in_range (CHR ''B'') (CHR ''I'') c \<or> in_range (CHR ''K'') (CHR ''Z'') c \<or>
     in_range (CHR ''b'') (CHR ''i'') c \<or> in_range (CHR ''k'') (CHR ''z'') c \<or>
     in_range (CHR ''0'') (CHR ''9'') c \<or>
     c \<in> set (''=#$%@+->()/'' @ [CHR 0x5C] @ ''.'')"

definition smiles_match :: "string \<Rightarrow> string option" where
  "smiles_match s =
     (if prefix ''>>'' s then Some ''>>''
      else case bracket_atom s of
        Some b \<Rightarrow> Some b
      | None \<Rightarrow>
         (case find (\<lambda>e. prefix e s) elements of
            Some e \<Rightarrow> Some e
          | None \<Rightarrow>
             (case s of
                [] \<Rightarrow> None
              | c # r \<Rightarrow> if single_char c then Some [c] else None)))"

text \<open>\<^verbatim>\<open>findall\<close>: at each position the match, if there is one, is emitted and the scan
  goes on behind it; a position without a match is skipped. The pattern is one group
  around everything, so the strings returned are the matches.\<close>

function findall_smiles :: "string \<Rightarrow> string list" where
  "findall_smiles [] = []"
| "findall_smiles (c # cs) =
     (case smiles_match (c # cs) of
        Some tok \<Rightarrow> tok # findall_smiles (drop (length tok) (c # cs))
      | None \<Rightarrow> findall_smiles cs)"
  by pat_completeness auto
termination
proof (relation "measure length")
  show "wf (measure length)" by simp
next
  fix c :: char and cs tok :: string
  assume "smiles_match (c # cs) = Some tok"
  then have "tok \<noteq> []"
    by (auto simp: smiles_match_def bracket_atom_def elements_def Let_def
        split: if_splits option.splits list.splits)
  then have "0 < length tok" by simp
  then show "(drop (length tok) (c # cs), c # cs) \<in> measure length" by simp
next
  fix c :: char and cs :: string
  show "(cs, c # cs) \<in> measure length" by simp
qed

subsection \<open>The tokenizer\<close>

text \<open>The attributes \<^verbatim>\<open>__init__\<close> sets. The constructor receives the token-to-id
  mapping read from the vocabulary file; reading the file is outside the model.\<close>

record tokenizer =
  token_to_id :: "(string, int) dict"
  id_to_token :: "(int, string) dict"
  vocab :: "string set"
  pad_token :: string
  mask_token :: string
  unk_token :: string
  eos_token :: string
  noagent_token :: string
  pad_token_id :: int
  mask_token_id :: int
  unk_token_id :: int
  eos_token_id :: int
  noagent_token_id :: int

definition require_token :: "(string, int) dict \<Rightarrow> string \<Rightarrow> error + int" where
  "require_token tti token =
     (case map_of tti token of
        None \<Rightarrow> Inl (ValueError (token @ '' token is missing in vocabulary!''))
      | Some tid \<Rightarrow> Inr tid)"

definition construct :: "(string, int) dict \<Rightarrow> error + tokenizer" where
  "construct tti =
     (case require_token tti ''[PAD]'' of Inl e \<Rightarrow> Inl e | Inr pad_id \<Rightarrow>
     (case require_token tti ''[MASK]'' of Inl e \<Rightarrow> Inl e | Inr mask_id \<Rightarrow>
     (case require_token tti ''[UNK]'' of Inl e \<Rightarrow> Inl e | Inr unk_id \<Rightarrow>
     (case require_token tti ''[EOS]'' of Inl e \<Rightarrow> Inl e | Inr eos_id \<Rightarrow>
     (case require_token tti ''[NOAGENT]'' of Inl e \<Rightarrow> Inl e | Inr noagent_id \<Rightarrow>
      Inr \<lparr> token_to_id = tti,
            id_to_token = invert_dict tti,
            vocab = set (map fst tti),
            pad_token = ''[PAD]'',
            mask_token = ''[MASK]'',
            unk_token = ''[UNK]'',
            eos_token = ''[EOS]'',
            noagent_token = ''[NOAGENT]'',
            pad_token_id = pad_id,
            mask_token_id = mask_id,
            unk_token_id = unk_id,
            eos_token_id = eos_id,
            noagent_token_id = noagent_id \<rparr>)))))"

definition vocab_size :: "tokenizer \<Rightarrow> nat" where
  "vocab_size t = length (token_to_id t)"

definition get_special_token_id :: "tokenizer \<Rightarrow> string \<Rightarrow> int" where
  "get_special_token_id t token = dict_get (token_to_id t) token (unk_token_id t)"

definition is_reaction_class :: "string \<Rightarrow> bool" where
  "is_reaction_class text = reaction_class_match text"

definition tokenize_smiles :: "string \<Rightarrow> string list" where
  "tokenize_smiles smiles_string = findall_smiles smiles_string"

text \<open>The loop of \<^verbatim>\<open>encode\<close> over the pieces; \<open>tokens\<close> is the list it appends to.\<close>

fun encode_pieces :: "tokenizer \<Rightarrow> string list \<Rightarrow> string list \<Rightarrow> string list" where
  "encode_pieces t [] tokens = tokens"
| "encode_pieces t (piece # pieces) tokens =
     (if is_reaction_class piece then encode_pieces t pieces (tokens @ [piece])
      else if piece \<in> vocab t then encode_pieces t pieces (tokens @ [piece])
      else encode_pieces t pieces (tokens @ tokenize_smiles piece))"

definition encode :: "tokenizer \<Rightarrow> string \<Rightarrow> int list" where
  "encode t text =
     (let pieces = split (strip text);
          tokens = encode_pieces t pieces []
      in map (\<lambda>token. dict_get (token_to_id t) token (unk_token_id t)) tokens)"

text \<open>The first loop of \<^verbatim>\<open>decode\<close>: pad ids are skipped, the others looked up.\<close>

fun decode_tokens :: "tokenizer \<Rightarrow> int list \<Rightarrow> string list \<Rightarrow> string list" where
  "decode_tokens t [] tokens = tokens"
| "decode_tokens t (i # ids) tokens =
     (if i = pad_token_id t then decode_tokens t ids tokens
      else decode_tokens t ids (tokens @ [dict_get (id_to_token t) i (unk_token t)]))"

text \<open>The second loop, over \<^verbatim>\<open>enumerate(tokens)\<close>. The condition is an \<^verbatim>\<open>or\<close> of four
  tests, evaluated left to right: \<^verbatim>\<open>tokens[i-1]\<close> is read only when the current token is
  not a reaction class, and both of its reads are the same subscript.\<close>

fun decode_join ::
  "string list \<Rightarrow> (nat \<times> string) list \<Rightarrow> string list \<Rightarrow> error + string list" where
  "decode_join tokens [] result = Inr result"
| "decode_join tokens ((i, token) # rest) result =
     (if i = 0 then decode_join tokens rest (result @ [token])
      else if is_reaction_class token then decode_join tokens rest (result @ ['' '' @ token])
      else
        (case list_index tokens (int i - 1) of
           Inl e \<Rightarrow> Inl e
         | Inr prev \<Rightarrow>
             if is_reaction_class prev \<or> startswith token ''['' \<or> startswith prev ''[''
             then decode_join tokens rest (result @ ['' '' @ token])
             else decode_join tokens rest (result @ [token])))"

definition decode :: "tokenizer \<Rightarrow> int list \<Rightarrow> error + string" where
  "decode t token_ids =
     (if token_ids = [] then Inr []
      else
        let tokens = decode_tokens t token_ids [] in
        if tokens = [] then Inr []
        else
          (case decode_join tokens (enumerate 0 tokens) [] of
             Inl e \<Rightarrow> Inl e
           | Inr result \<Rightarrow> Inr (concat result)))"

text \<open>The inner loop of \<^verbatim>\<open>_greedy_tokenize\<close>: the first \<open>j\<close> of the range whose slice
  is in the vocabulary ends the loop.\<close>

fun greedy_find :: "tokenizer \<Rightarrow> string \<Rightarrow> nat \<Rightarrow> nat list \<Rightarrow> string option" where
  "greedy_find t text i [] = None"
| "greedy_find t text i (j # js) =
     (let sub = slice text i j in
      if sub \<in> vocab t then Some sub else greedy_find t text i js)"

text \<open>The outer loop. \<^verbatim>\<open>if match:\<close> tests a string, and the empty string counts as
  false like \<^verbatim>\<open>None\<close>.\<close>

function greedy_loop :: "tokenizer \<Rightarrow> string \<Rightarrow> nat \<Rightarrow> string list \<Rightarrow> string list" where
  "greedy_loop t text i tokens =
     (if i < length text then
        (case greedy_find t text i (range_down (length text) i) of
           Some m \<Rightarrow>
             if m \<noteq> [] then greedy_loop t text (i + length m) (tokens @ [m])
             else greedy_loop t text (i + 1) (tokens @ [unk_token t])
         | None \<Rightarrow> greedy_loop t text (i + 1) (tokens @ [unk_token t]))
      else tokens)"
  by pat_completeness auto
termination
proof (relation "measure (\<lambda>(t, text, i, tokens). length text - i)")
  show "wf (measure (\<lambda>(t, text, i, tokens). length text - i))" by simp
next
  fix t :: tokenizer and s m :: string and i :: nat and tokens :: "string list"
  assume "i < length s" and "m \<noteq> []"
  then have "length s - (i + length m) < length s - i"
    by (cases m) auto
  then show "((t, s, i + length m, tokens @ [m]), (t, s, i, tokens))
      \<in> measure (\<lambda>(t, text, i, tokens). length text - i)" by simp
next
  fix t :: tokenizer and s :: string and i :: nat and tokens :: "string list"
  assume "i < length s"
  then show "((t, s, i + 1, tokens @ [unk_token t]), (t, s, i, tokens))
      \<in> measure (\<lambda>(t, text, i, tokens). length text - i)" by simp
next
  fix t :: tokenizer and s :: string and i :: nat and tokens :: "string list"
  assume "i < length s"
  then show "((t, s, i + 1, tokens @ [unk_token t]), (t, s, i, tokens))
      \<in> measure (\<lambda>(t, text, i, tokens). length text - i)" by simp
qed

declare greedy_loop.simps [simp del]

definition greedy_tokenize :: "tokenizer \<Rightarrow> string \<Rightarrow> string list" where
  "greedy_tokenize t text = greedy_loop t text 0 []"

text \<open>The same loop with a bound on the number of iterations, to count them: \<open>None\<close>
  when the bound is used up before the loop is left.\<close>

fun greedy_fuel ::
  "nat \<Rightarrow> tokenizer \<Rightarrow> string \<Rightarrow> nat \<Rightarrow> string list \<Rightarrow> string list option" where
  "greedy_fuel n t text i tokens =
     (if i < length text then
        (case n of
           0 \<Rightarrow> None
         | Suc n' \<Rightarrow>
            (case greedy_find t text i (range_down (length text) i) of
               Some m \<Rightarrow>
                 if m \<noteq> [] then greedy_fuel n' t text (i + length m) (tokens @ [m])
                 else greedy_fuel n' t text (i + 1) (tokens @ [unk_token t])
             | None \<Rightarrow> greedy_fuel n' t text (i + 1) (tokens @ [unk_token t])))
      else Some tokens)"

declare greedy_fuel.simps [simp del]

section \<open>The specification's wording\<close>

text \<open>The decoder as the specification words it: the ids other than the pad id, each mapped
  to its token (the unknown token for an id without one), joined so that a token after the
  first gets one space in front exactly when it or the token before it is a reaction class
  or starts with an opening bracket.\<close>

definition lookup_token :: "tokenizer \<Rightarrow> int \<Rightarrow> string" where
  "lookup_token t i =
     (case map_of (id_to_token t) i of Some token \<Rightarrow> token | None \<Rightarrow> unk_token t)"

definition kept_tokens :: "tokenizer \<Rightarrow> int list \<Rightarrow> string list" where
  "kept_tokens t ids = map (lookup_token t) (filter (\<lambda>i. i \<noteq> pad_token_id t) ids)"

definition needs_space :: "string \<Rightarrow> string \<Rightarrow> bool" where
  "needs_space prev cur \<longleftrightarrow>
     is_reaction_class cur \<or> is_reaction_class prev \<or>
     startswith cur ''['' \<or> startswith prev ''[''"

fun pieces :: "string \<Rightarrow> string list \<Rightarrow> string list" where
  "pieces prev [] = []"
| "pieces prev (cur # rest) =
     ((if needs_space prev cur then '' '' else []) @ cur) # pieces cur rest"

fun spaced :: "string \<Rightarrow> string list \<Rightarrow> string" where
  "spaced prev [] = []"
| "spaced prev (cur # rest) =
     (if needs_space prev cur then '' '' else []) @ cur @ spaced cur rest"

definition join_tokens :: "string list \<Rightarrow> string" where
  "join_tokens tokens =
     (case tokens of [] \<Rightarrow> [] | first # rest \<Rightarrow> first @ spaced first rest)"

text \<open>The five tokens \<^verbatim>\<open>__init__\<close> requires, in the order it asks for them.\<close>

definition required_tokens :: "string list" where
  "required_tokens = [''[PAD]'', ''[MASK]'', ''[UNK]'', ''[EOS]'', ''[NOAGENT]'']"

text \<open>The encoder as the specification words it: each piece is one token when it is a
  reaction class, else one token when it is in the vocabulary, else its SMILES tokens;
  every token is mapped to its id, the unknown id standing in for a token without one.\<close>

definition piece_tokens :: "tokenizer \<Rightarrow> string \<Rightarrow> string list" where
  "piece_tokens t piece =
     (if is_reaction_class piece then [piece]
      else if piece \<in> vocab t then [piece]
      else tokenize_smiles piece)"

definition lookup_id :: "tokenizer \<Rightarrow> string \<Rightarrow> int" where
  "lookup_id t token =
     (case map_of (token_to_id t) token of Some i \<Rightarrow> i | None \<Rightarrow> unk_token_id t)"

text \<open>The recogniser as the specification words it: the groups between the dots, of which
  there is at least one, are each a non-empty run of digits, and nothing stands before the
  first or after the last.\<close>

fun split_dots :: "string \<Rightarrow> string \<Rightarrow> string list" where
  "split_dots cur [] = [cur]"
| "split_dots cur (c # cs) =
     (if c = CHR ''.'' then cur # split_dots [] cs else split_dots (cur @ [c]) cs)"

definition digit_groups :: "string \<Rightarrow> bool" where
  "digit_groups s \<longleftrightarrow> list_all (\<lambda>g. g \<noteq> [] \<and> list_all is_digit g) (split_dots [] s)"

text \<open>The same left to right; \<open>seen\<close> says that the group being read has a digit already.\<close>

fun dg_scan :: "bool \<Rightarrow> string \<Rightarrow> bool" where
  "dg_scan seen [] = seen"
| "dg_scan seen (c # cs) =
     (if is_digit c then dg_scan True cs
      else if c = CHR ''.'' then seen \<and> dg_scan False cs
      else False)"

text \<open>The rest of the match once the first digit of a group has been read.\<close>

definition after_digit :: "string \<Rightarrow> bool" where
  "after_digit s = at_dollar (dot_groups (dropWhile is_digit s))"

section \<open>Example vocabularies\<close>

text \<open>The vocabulary claim C1 lists: the five required tokens, \<^verbatim>\<open>>>\<close> and the single
  characters of \<^verbatim>\<open>CCO>>CCCBr\<close>; and the tokenizer \<open>construct\<close> builds from it.\<close>

definition example_vocab :: "(string, int) dict" where
  "example_vocab =
     [(''[PAD]'', 0), (''[MASK]'', 1), (''[UNK]'', 2), (''[EOS]'', 3), (''[NOAGENT]'', 4),
      (''>>'', 5), (''C'', 6), (''O'', 7), (''B'', 8), (''r'', 9), (''>'', 10)]"

definition example_tokenizer :: tokenizer where
  "example_tokenizer =
     \<lparr> token_to_id = example_vocab,
       id_to_token = [(0, ''[PAD]''), (1, ''[MASK]''), (2, ''[UNK]''), (3, ''[EOS]''),
         (4, ''[NOAGENT]''), (5, ''>>''), (6, ''C''), (7, ''O''), (8, ''B''), (9, ''r''),
         (10, ''>'')],
       vocab = set (map fst example_vocab),
       pad_token = ''[PAD]'', mask_token = ''[MASK]'', unk_token = ''[UNK]'',
       eos_token = ''[EOS]'', noagent_token = ''[NOAGENT]'',
       pad_token_id = 0, mask_token_id = 1, unk_token_id = 2, eos_token_id = 3,
       noagent_token_id = 4 \<rparr>"

text \<open>A vocabulary with the five required tokens, \<^verbatim>\<open>ab\<close> and \<^verbatim>\<open>a\<close>.\<close>

definition ab_vocab :: "(string, int) dict" where
  "ab_vocab =
     [(''[PAD]'', 0), (''[MASK]'', 1), (''[UNK]'', 2), (''[EOS]'', 3), (''[NOAGENT]'', 4),
      (''ab'', 5), (''a'', 6)]"

definition ab_tokenizer :: tokenizer where
  "ab_tokenizer =
     \<lparr> token_to_id = ab_vocab,
       id_to_token = [(0, ''[PAD]''), (1, ''[MASK]''), (2, ''[UNK]''), (3, ''[EOS]''),
         (4, ''[NOAGENT]''), (5, ''ab''), (6, ''a'')],
       vocab = set (map fst ab_vocab),
       pad_token = ''[PAD]'', mask_token = ''[MASK]'', unk_token = ''[UNK]'',
       eos_token = ''[EOS]'', noagent_token = ''[NOAGENT]'',
       pad_token_id = 0, mask_token_id = 1, unk_token_id = 2, eos_token_id = 3,
       noagent_token_id = 4 \<rparr>"

text \<open>The same vocabulary with \<^verbatim>\<open>Br\<close> and \<^verbatim>\<open>2.12.13\<close> added.\<close>

definition reaction_vocab :: "(string, int) dict" where
  "reaction_vocab =
     [(''[PAD]'', 0), (''[MASK]'', 1), (''[UNK]'', 2), (''[EOS]'', 3), (''[NOAGENT]'', 4),
      (''>>'', 5), (''C'', 6), (''O'', 7), (''B'', 8), (''r'', 9), (''>'', 10),
      (''Br'', 11), (''2.12.13'', 12)]"

definition reaction_tokenizer :: tokenizer where
  "reaction_tokenizer =
     \<lparr> token_to_id = reaction_vocab,
       id_to_token = [(0, ''[PAD]''), (1, ''[MASK]''), (2, ''[UNK]''), (3, ''[EOS]''),
         (4, ''[NOAGENT]''), (5, ''>>''), (6, ''C''), (7, ''O''), (8, ''B''), (9, ''r''),
         (10, ''>''), (11, ''Br''), (12, ''2.12.13'')],
       vocab = set (map fst reaction_vocab),
       pad_token = ''[PAD]'', mask_token = ''[MASK]'', unk_token = ''[UNK]'',
       eos_token = ''[EOS]'', noagent_token = ''[NOAGENT]'',
       pad_token_id = 0, mask_token_id = 1, unk_token_id = 2, eos_token_id = 3,
       noagent_token_id = 4 \<rparr>"

section \<open>The SMILES pattern\<close>

lemma smiles_match_nonempty: "smiles_match s = Some tok \<Longrightarrow> tok \<noteq> []"
  by (auto simp: smiles_match_def bracket_atom_def elements_def Let_def
      split: if_splits option.splits list.splits)

section \<open>Decoding\<close>

lemma decode_tokens_eq: "decode_tokens t ids acc = acc @ kept_tokens t ids"
  by (induction ids arbitrary: acc)
     (simp_all add: kept_tokens_def lookup_token_def dict_get_def)

text \<open>The subscript \<^verbatim>\<open>tokens[i-1]\<close> is in range at every index the loop reaches.\<close>

lemma list_index_last:
  assumes "pre \<noteq> []"
  shows "list_index (pre @ suf) (int (length pre) - 1) = Inr (last pre)"
proof -
  from assms have pos: "0 < length pre" by simp
  then have idx: "nat (int (length pre) - 1) = length pre - 1" by simp
  from pos have "(pre @ suf) ! (length pre - 1) = pre ! (length pre - 1)"
    by (simp add: nth_append)
  also from assms have "\<dots> = last pre" by (simp add: last_conv_nth)
  finally show ?thesis using pos by (simp add: list_index_def idx)
qed

lemma decode_join_pieces:
  "pre \<noteq> [] \<Longrightarrow>
   decode_join (pre @ suf) (enumerate (length pre) suf) result
     = Inr (result @ pieces (last pre) suf)"
proof (induction suf arbitrary: pre result)
  case Nil
  then show ?case by simp
next
  case (Cons cur rest)
  have step: "decode_join ((pre @ [cur]) @ rest) (enumerate (length (pre @ [cur])) rest) r
      = Inr (r @ pieces cur rest)" for r
    using Cons.IH [of "pre @ [cur]" r] by simp
  from Cons.prems have pos: "length pre \<noteq> 0" by simp
  have prev: "list_index (pre @ cur # rest) (int (length pre) - 1) = Inr (last pre)"
    using Cons.prems by (rule list_index_last)
  show ?case
    using step pos prev by (simp add: needs_space_def)
qed

lemma concat_pieces: "concat (pieces prev toks) = spaced prev toks"
  by (induction toks arbitrary: prev) simp_all

lemma decode_join_all:
  "decode_join (first # rest) (enumerate 0 (first # rest)) [] = Inr (first # pieces first rest)"
  using decode_join_pieces [of "[first]" rest "[first]"] by simp

lemma decode_eq_join: "decode t ids = Inr (join_tokens (kept_tokens t ids))"
proof (cases "kept_tokens t ids")
  case Nil
  then show ?thesis
    by (simp add: decode_def decode_tokens_eq join_tokens_def Let_def)
next
  case (Cons first rest)
  then have "ids \<noteq> []" by (auto simp: kept_tokens_def)
  then show ?thesis
    using Cons
    by (simp add: decode_def decode_tokens_eq join_tokens_def Let_def decode_join_all
        concat_pieces del: decode_join.simps enumerate_simps)
qed

text \<open>
  Claim C5. In \<^verbatim>\<open>decode\<close>, after the pad ids are dropped and the remaining ids mapped to
  tokens, the output is the first token without a separator in front, followed by each later
  token with exactly one space in front if and only if that token is a reaction class, or
  the token before it is a reaction class, or that token starts with an opening bracket, or
  the token before it starts with one; otherwise the token is appended directly.
\<close>

theorem decode_spacing_rule:
  "decode t ids = Inr (join_tokens (kept_tokens t ids))"
  by (rule decode_eq_join)

text \<open>
  Claim C7. \<^verbatim>\<open>decode\<close> drops every id equal to the pad id before anything else: for all
  ids \<open>x\<close> and \<open>y\<close>, decoding \<open>[pad_token_id, x, y]\<close> gives what decoding \<open>[x, y]\<close> gives,
  and more generally removing the pad ids from any sequence does not change the result;
  the empty sequence and every sequence of pad ids only decode to the empty string.
\<close>

theorem decode_drops_pad:
  "decode t [pad_token_id t, x, y] = decode t [x, y]
   \<and> decode t (filter (\<lambda>i. i \<noteq> pad_token_id t) ids) = decode t ids
   \<and> decode t [] = Inr ''''
   \<and> decode t (replicate n (pad_token_id t)) = Inr ''''"
proof -
  have "kept_tokens t (replicate n (pad_token_id t)) = []"
    by (simp add: kept_tokens_def)
  then show ?thesis
    by (simp add: decode_eq_join kept_tokens_def join_tokens_def)
qed

section \<open>Construction\<close>

lemma construct_example: "construct example_vocab = Inr example_tokenizer"
  by (simp add: construct_def require_token_def example_vocab_def example_tokenizer_def
      invert_dict_def)

lemma construct_unfold:
  "construct tti =
     (if map_of tti ''[PAD]'' = None then Inl (ValueError ''[PAD] token is missing in vocabulary!'')
      else if map_of tti ''[MASK]'' = None then Inl (ValueError ''[MASK] token is missing in vocabulary!'')
      else if map_of tti ''[UNK]'' = None then Inl (ValueError ''[UNK] token is missing in vocabulary!'')
      else if map_of tti ''[EOS]'' = None then Inl (ValueError ''[EOS] token is missing in vocabulary!'')
      else if map_of tti ''[NOAGENT]'' = None then Inl (ValueError ''[NOAGENT] token is missing in vocabulary!'')
      else Inr \<lparr> token_to_id = tti, id_to_token = invert_dict tti, vocab = set (map fst tti),
        pad_token = ''[PAD]'', mask_token = ''[MASK]'', unk_token = ''[UNK]'',
        eos_token = ''[EOS]'', noagent_token = ''[NOAGENT]'',
        pad_token_id = the (map_of tti ''[PAD]''), mask_token_id = the (map_of tti ''[MASK]''),
        unk_token_id = the (map_of tti ''[UNK]''), eos_token_id = the (map_of tti ''[EOS]''),
        noagent_token_id = the (map_of tti ''[NOAGENT]'') \<rparr>)"
  by (simp add: construct_def require_token_def split: option.splits)

lemma construct_Inr_fields:
  assumes "construct tti = Inr t"
  shows "token_to_id t = tti" and "id_to_token t = invert_dict tti"
    and "vocab t = set (map fst tti)" and "unk_token t = ''[UNK]''"
    and "map_of tti ''[PAD]'' = Some (pad_token_id t)"
    and "map_of tti ''[UNK]'' = Some (unk_token_id t)"
  using assms unfolding construct_unfold
  by (force split: if_splits)+

lemma absent_iff: "k \<notin> set (map fst d) \<longleftrightarrow> map_of d k = None"
  by (simp add: map_of_eq_None_iff)

lemma construct_missing:
  assumes "tok \<in> set required_tokens" and "tok \<notin> set (map fst tti)"
  shows "\<exists>name\<in>set required_tokens. name \<notin> set (map fst tti) \<and>
           construct tti = Inl (ValueError (name @ '' token is missing in vocabulary!''))"
proof -
  from assms have "map_of tti ''[PAD]'' = None \<or> map_of tti ''[MASK]'' = None \<or>
      map_of tti ''[UNK]'' = None \<or> map_of tti ''[EOS]'' = None \<or>
      map_of tti ''[NOAGENT]'' = None"
    unfolding absent_iff by (auto simp: required_tokens_def)
  then show ?thesis
    unfolding absent_iff construct_unfold by (auto simp: required_tokens_def)
qed

lemma construct_complete:
  assumes "\<forall>name\<in>set required_tokens. name \<in> set (map fst tti)"
  shows "\<exists>t. construct tti = Inr t"
proof -
  have "\<forall>name\<in>set required_tokens. map_of tti name \<noteq> None"
    using assms unfolding absent_iff [symmetric] by simp
  then show ?thesis
    unfolding construct_unfold by (simp add: required_tokens_def)
qed

text \<open>
  Claim C6. Construction fails with the missing-token error, which carries the name of the
  token, whenever one of the five required special tokens \<^verbatim>\<open>[PAD]\<close>, \<^verbatim>\<open>[MASK]\<close>,
  \<^verbatim>\<open>[UNK]\<close>, \<^verbatim>\<open>[EOS]\<close>, \<^verbatim>\<open>[NOAGENT]\<close> is absent from the mapping supplied: no tokenizer
  is returned. When all five are present a tokenizer is returned. The only other place
  where the code could raise, the subscript in \<^verbatim>\<open>decode\<close>, never does: \<^verbatim>\<open>decode\<close> returns a
  string on every tokenizer and every id sequence. The remaining operations have no
  failing step, and are total functions here.
\<close>

theorem construct_requires_special_tokens:
  "(tok \<in> set required_tokens \<and> tok \<notin> set (map fst tti) \<longrightarrow>
      (\<exists>name\<in>set required_tokens. name \<notin> set (map fst tti) \<and>
         construct tti = Inl (ValueError (name @ '' token is missing in vocabulary!''))))
   \<and> ((\<forall>name\<in>set required_tokens. name \<in> set (map fst tti)) \<longrightarrow>
        (\<exists>t'. construct tti = Inr t'))
   \<and> (\<exists>s. decode t ids = Inr s)"
  using construct_missing [of tok tti] construct_complete [of tti]
  by (simp add: decode_eq_join)

theorem construct_requires_special_tokens_witness:
  "construct [(''[PAD]'', 0), (''[UNK]'', 1)]
     = Inl (ValueError ''[MASK] token is missing in vocabulary!'')
   \<and> construct example_vocab = Inr example_tokenizer"
proof -
  have "\<exists>name\<in>set required_tokens. name \<notin> set (map fst [(''[PAD]'', 0::int), (''[UNK]'', 1)]) \<and>
         construct [(''[PAD]'', 0), (''[UNK]'', 1)] = Inl (ValueError (name @ '' token is missing in vocabulary!''))"
    using construct_requires_special_tokens [of "''[MASK]''" "[(''[PAD]'', 0), (''[UNK]'', 1)]"]
    by (simp add: required_tokens_def)
  moreover have "\<exists>t'. construct example_vocab = Inr t'"
    using construct_requires_special_tokens [of _ example_vocab]
    by (simp add: required_tokens_def example_vocab_def)
  ultimately show ?thesis
    by (simp add: construct_example) (simp add: construct_def require_token_def)
qed

section \<open>Encoding\<close>

lemma encode_pieces_eq:
  "encode_pieces t ps acc = acc @ concat (map (piece_tokens t) ps)"
  by (induction ps arbitrary: acc) (simp_all add: piece_tokens_def)

lemma encode_eq:
  "encode t text = map (lookup_id t) (concat (map (piece_tokens t) (split (strip text))))"
proof -
  have "(\<lambda>token. dict_get (token_to_id t) token (unk_token_id t)) = lookup_id t"
    by (rule ext) (simp add: lookup_id_def dict_get_def)
  then show ?thesis
    by (simp add: encode_def Let_def encode_pieces_eq)
qed

lemma split_pad: "split (strip ''[PAD]'') = [''[PAD]'']"
  by (simp add: split_def strip_def isspace_def)

lemma not_reaction_class_pad: "\<not> is_reaction_class ''[PAD]''"
  by (simp add: is_reaction_class_def reaction_class_match_def digits1_def is_digit_def)

lemma encode_pad:
  assumes "construct tti = Inr t"
  shows "encode t ''[PAD]'' = [pad_token_id t]"
proof -
  have v: "vocab t = set (map fst tti)" and m: "map_of tti ''[PAD]'' = Some (pad_token_id t)"
    and tt: "token_to_id t = tti"
    using assms by (rule construct_Inr_fields)+
  from m have "''[PAD]'' \<in> vocab t"
    unfolding v by (metis absent_iff option.distinct(1))
  then have "piece_tokens t ''[PAD]'' = [''[PAD]'']"
    by (simp add: piece_tokens_def)
  then show ?thesis
    unfolding encode_eq split_pad by (simp add: lookup_id_def tt m)
qed

text \<open>
  Claim C4. \<^verbatim>\<open>encode\<close> goes through the pieces of its input between white space in
  order; a piece that matches the reaction-class pattern is emitted whole, else a piece that
  is in the vocabulary is emitted whole, else the SMILES tokens of the piece are emitted in
  order; every token emitted is mapped to its id in the vocabulary, the unknown id taking
  the place of a token that is not there. The result is a list on every input, and
  \<^verbatim>\<open>encode("[PAD]")\<close> is the one-element list of the pad id.
\<close>

theorem encode_classifies_pieces:
  "construct tti = Inr t \<Longrightarrow>
     encode t text = map (lookup_id t) (concat (map (piece_tokens t) (split (strip text))))
     \<and> encode t ''[PAD]'' = [pad_token_id t]"
  using encode_eq encode_pad by simp

theorem encode_classifies_pieces_witness:
  "construct example_vocab = Inr example_tokenizer
   \<and> encode example_tokenizer ''CO 7 [EOS] x'' = [6, 7, 2, 3, 2]
   \<and> encode example_tokenizer ''[PAD]'' = [0]"
proof -
  have sp: "split (strip ''CO 7 [EOS] x'') = [''CO'', ''7'', ''[EOS]'', ''x'']"
    by (simp add: split_def strip_def isspace_def)
  have pt: "map (piece_tokens example_tokenizer) [''CO'', ''7'', ''[EOS]'', ''x'']
      = [[''C'', ''O''], [''7''], [''[EOS]''], [''x'']]"
    by (simp add: piece_tokens_def is_reaction_class_def reaction_class_match_def digits1_def
        is_digit_def at_dollar_def example_tokenizer_def example_vocab_def tokenize_smiles_def
        smiles_match_def bracket_atom_def elements_def single_char_def in_range_def)
  have lk: "map (lookup_id example_tokenizer) [''C'', ''O'', ''7'', ''[EOS]'', ''x'']
      = [6, 7, 2, 3, 2]"
    by (simp add: lookup_id_def example_tokenizer_def example_vocab_def)
  have pad: "pad_token_id example_tokenizer = 0"
    by (simp add: example_tokenizer_def)
  note inst = encode_classifies_pieces [OF construct_example, of "''CO 7 [EOS] x''"]
  from inst have "encode example_tokenizer ''CO 7 [EOS] x''
      = map (lookup_id example_tokenizer) (concat [[''C'', ''O''], [''7''], [''[EOS]''], [''x'']])"
    unfolding sp pt by (rule conjunct1)
  then have e1: "encode example_tokenizer ''CO 7 [EOS] x'' = [6, 7, 2, 3, 2]"
    using lk by simp
  from inst have e2: "encode example_tokenizer ''[PAD]'' = [0]"
    unfolding pad by (rule conjunct2)
  from construct_example e1 e2 show ?thesis by simp
qed

lemma dict_get_in_values:
  assumes "dflt \<in> snd ` set d"
  shows "dict_get d k dflt \<in> snd ` set d"
proof (cases "map_of d k")
  case None
  with assms show ?thesis by (simp add: dict_get_def)
next
  case (Some v)
  then have "(k, v) \<in> set d" by (rule map_of_SomeD)
  then have "v \<in> snd ` set d" by force
  with Some show ?thesis by (simp add: dict_get_def)
qed

text \<open>
  Claim C10. Every integer \<^verbatim>\<open>encode\<close> returns is a value of the token-to-id mapping: a
  token is mapped through the mapping, with the unknown id as the fallback, and the unknown
  id is the mapping's value for \<^verbatim>\<open>[UNK]\<close>.
\<close>

theorem encode_ids_in_vocabulary:
  assumes "construct tti = Inr t"
  shows "set (encode t text) \<subseteq> snd ` set tti"
proof -
  have tt: "token_to_id t = tti" and u: "map_of tti ''[UNK]'' = Some (unk_token_id t)"
    using assms by (rule construct_Inr_fields)+
  from u have "(''[UNK]'', unk_token_id t) \<in> set tti" by (rule map_of_SomeD)
  then have "unk_token_id t \<in> snd ` set tti" by force
  then have "dict_get tti k (unk_token_id t) \<in> snd ` set tti" for k
    by (rule dict_get_in_values)
  then show ?thesis
    by (auto simp: encode_def Let_def tt)
qed

theorem encode_ids_in_vocabulary_witness:
  "construct example_vocab = Inr example_tokenizer
   \<and> set (encode example_tokenizer ''CCO>>CCCBr 2.12.13'') \<subseteq> {0, 1, 2, 3, 4, 5, 6, 7, 8, 9, 10}"
proof -
  have "snd ` set example_vocab = {0, 1, 2, 3, 4, 5, 6, 7, 8, 9, 10}"
    by (simp add: example_vocab_def)
  with encode_ids_in_vocabulary [OF construct_example, of "''CCO>>CCCBr 2.12.13''"]
  have "set (encode example_tokenizer ''CCO>>CCCBr 2.12.13'') \<subseteq> {0, 1, 2, 3, 4, 5, 6, 7, 8, 9, 10}"
    by simp
  with construct_example show ?thesis by simp
qed

section \<open>The legacy greedy tokenizer\<close>

lemma greedy_find_None:
  "(\<And>j. j \<in> set js \<Longrightarrow> slice text i j \<notin> vocab t) \<Longrightarrow> greedy_find t text i js = None"
  by (induction js) (simp_all add: Let_def)

lemma greedy_find_Some:
  "(\<And>k. k \<in> set pre \<Longrightarrow> slice text i k \<notin> vocab t) \<Longrightarrow> slice text i j \<in> vocab t \<Longrightarrow>
   greedy_find t text i (pre @ j # post) = Some (slice text i j)"
  by (induction pre) (simp_all add: Let_def)

lemma range_down_split:
  assumes "lo < j" and "j \<le> hi"
  shows "range_down hi lo = rev [Suc j ..< Suc hi] @ j # rev [Suc lo ..< j]"
proof -
  from assms have "Suc lo \<le> j" and "Suc hi = j + (Suc hi - j)" by simp_all
  then have "[Suc lo ..< Suc hi] = [Suc lo ..< j] @ [j ..< Suc hi]"
    using upt_add_eq_append [of "Suc lo" j "Suc hi - j"] by simp
  also from assms have "[j ..< Suc hi] = j # [Suc j ..< Suc hi]"
    by (simp add: upt_conv_Cons)
  finally show ?thesis by (simp add: range_down_def)
qed

lemma length_slice: "j \<le> length xs \<Longrightarrow> length (slice xs i j) = j - i"
  by (simp add: slice_def)

lemma greedy_loop_exit: "\<not> i < length text \<Longrightarrow> greedy_loop t text i tokens = tokens"
  by (subst greedy_loop.simps) simp

lemma greedy_loop_unknown:
  assumes "i < length text"
    and "\<And>j. i < j \<Longrightarrow> j \<le> length text \<Longrightarrow> slice text i j \<notin> vocab t"
  shows "greedy_loop t text i tokens = greedy_loop t text (i + 1) (tokens @ [unk_token t])"
proof -
  have "greedy_find t text i (range_down (length text) i) = None"
    by (rule greedy_find_None) (auto simp: range_down_def assms(2))
  with assms(1) show ?thesis
    by (subst greedy_loop.simps) simp
qed

lemma greedy_loop_match:
  assumes "i < j" and "j \<le> length text" and "slice text i j \<in> vocab t"
    and "\<And>k. j < k \<Longrightarrow> k \<le> length text \<Longrightarrow> slice text i k \<notin> vocab t"
  shows "greedy_loop t text i tokens = greedy_loop t text j (tokens @ [slice text i j])"
proof -
  have "greedy_find t text i (rev [Suc j ..< Suc (length text)] @ j # rev [Suc i ..< j])
      = Some (slice text i j)"
    by (rule greedy_find_Some) (auto simp: assms)
  then have found: "greedy_find t text i (range_down (length text) i) = Some (slice text i j)"
    using assms(1,2) by (simp add: range_down_split)
  from assms(1,2) have len: "length (slice text i j) = j - i"
    by (simp add: length_slice)
  with assms(1) have ne: "slice text i j \<noteq> []" by auto
  from assms(1) len have adv: "i + length (slice text i j) = j" by simp
  from assms(1,2) have "i < length text" by simp
  then show ?thesis
    by (subst greedy_loop.simps) (simp add: found ne adv)
qed

lemma construct_ab: "construct ab_vocab = Inr ab_tokenizer"
  by (simp add: construct_def require_token_def ab_vocab_def ab_tokenizer_def invert_dict_def)

lemma greedy_abc:
  assumes "unk_token t = ''[UNK]''" and "''ab'' \<in> vocab t"
    and "''abc'' \<notin> vocab t" and "''c'' \<notin> vocab t"
  shows "greedy_tokenize t ''abc'' = [''ab'', ''[UNK]'']"
proof -
  have s02: "slice ''abc'' 0 2 = ''ab''" by (simp add: slice_def)
  have "slice ''abc'' 0 k \<notin> vocab t" if "2 < k" and "k \<le> length ''abc''" for k
  proof -
    from that have "k = 3" by simp
    then show ?thesis using assms(3) by (simp add: slice_def)
  qed
  then have "greedy_loop t ''abc'' 0 [] = greedy_loop t ''abc'' 2 ([] @ [slice ''abc'' 0 2])"
    using assms(2) by (intro greedy_loop_match) (simp_all add: s02)
  then have first: "greedy_loop t ''abc'' 0 [] = greedy_loop t ''abc'' 2 [''ab'']"
    by (simp add: s02)
  have "slice ''abc'' 2 k \<notin> vocab t" if "2 < k" and "k \<le> length ''abc''" for k
  proof -
    from that have "k = 3" by simp
    then show ?thesis using assms(4) by (simp add: slice_def)
  qed
  then have "greedy_loop t ''abc'' 2 [''ab'']
      = greedy_loop t ''abc'' (2 + 1) ([''ab''] @ [unk_token t])"
    by (intro greedy_loop_unknown) simp_all
  then have second: "greedy_loop t ''abc'' 2 [''ab''] = greedy_loop t ''abc'' 3 [''ab'', ''[UNK]'']"
    by (simp add: assms(1))
  have third: "greedy_loop t ''abc'' 3 [''ab'', ''[UNK]''] = [''ab'', ''[UNK]'']"
    by (rule greedy_loop_exit) simp
  show ?thesis
    unfolding greedy_tokenize_def first second third ..
qed

text \<open>
  Claim C8. The legacy greedy tokenizer scans from position 0. At a position \<open>i\<close> inside the
  text it emits the longest slice \<^verbatim>\<open>text[i:j]\<close>, \<open>i < j \<le> len(text)\<close>, that is in the
  vocabulary and goes on at \<open>j\<close>, that is \<open>i\<close> plus the length of the slice; when no slice
  from \<open>i\<close> is in the vocabulary it emits the unknown token, \<^verbatim>\<open>[UNK]\<close> in a constructed
  tokenizer, and goes on at \<open>i + 1\<close>; at the end of the text it returns what it has emitted.
  For a vocabulary that holds \<^verbatim>\<open>ab\<close> and \<^verbatim>\<open>a\<close>, and neither of the other two slices
  the scan tries (\<^verbatim>\<open>abc\<close> and \<^verbatim>\<open>c\<close>), the greedy tokenization of \<^verbatim>\<open>abc\<close> is
  \<^verbatim>\<open>["ab", "[UNK]"]\<close>.
\<close>

theorem greedy_longest_match:
  "(\<not> i < length text \<longrightarrow> greedy_loop t text i tokens = tokens)
   \<and> (i < length text \<and> (\<forall>j. i < j \<and> j \<le> length text \<longrightarrow> slice text i j \<notin> vocab t) \<longrightarrow>
        greedy_loop t text i tokens = greedy_loop t text (i + 1) (tokens @ [unk_token t]))
   \<and> (i < j \<and> j \<le> length text \<and> slice text i j \<in> vocab t \<and>
        (\<forall>k. j < k \<and> k \<le> length text \<longrightarrow> slice text i k \<notin> vocab t) \<longrightarrow>
        greedy_loop t text i tokens = greedy_loop t text j (tokens @ [slice text i j]))
   \<and> greedy_tokenize t text = greedy_loop t text 0 []
   \<and> (unk_token t = ''[UNK]'' \<and> ''ab'' \<in> vocab t \<and> ''a'' \<in> vocab t \<and>
        ''abc'' \<notin> vocab t \<and> ''c'' \<notin> vocab t \<longrightarrow>
        greedy_tokenize t ''abc'' = [''ab'', ''[UNK]''])
   \<and> (construct tti = Inr t \<longrightarrow> unk_token t = ''[UNK]'')"
proof (intro conjI impI)
  assume "\<not> i < length text"
  then show "greedy_loop t text i tokens = tokens" by (rule greedy_loop_exit)
next
  assume "i < length text \<and> (\<forall>j. i < j \<and> j \<le> length text \<longrightarrow> slice text i j \<notin> vocab t)"
  then show "greedy_loop t text i tokens = greedy_loop t text (i + 1) (tokens @ [unk_token t])"
    by (intro greedy_loop_unknown) blast+
next
  assume "i < j \<and> j \<le> length text \<and> slice text i j \<in> vocab t \<and>
        (\<forall>k. j < k \<and> k \<le> length text \<longrightarrow> slice text i k \<notin> vocab t)"
  then show "greedy_loop t text i tokens = greedy_loop t text j (tokens @ [slice text i j])"
    by (intro greedy_loop_match) blast+
next
  show "greedy_tokenize t text = greedy_loop t text 0 []" by (simp add: greedy_tokenize_def)
next
  assume "unk_token t = ''[UNK]'' \<and> ''ab'' \<in> vocab t \<and> ''a'' \<in> vocab t \<and>
        ''abc'' \<notin> vocab t \<and> ''c'' \<notin> vocab t"
  then show "greedy_tokenize t ''abc'' = [''ab'', ''[UNK]'']"
    by (intro greedy_abc) simp_all
next
  assume "construct tti = Inr t"
  then show "unk_token t = ''[UNK]''" by (rule construct_Inr_fields(4))
qed

theorem greedy_longest_match_witness:
  "construct ab_vocab = Inr ab_tokenizer
   \<and> greedy_loop ab_tokenizer ''abc'' 0 [] = greedy_loop ab_tokenizer ''abc'' 2 [''ab'']
   \<and> greedy_loop ab_tokenizer ''abc'' 2 [''ab'']
       = greedy_loop ab_tokenizer ''abc'' 3 [''ab'', ''[UNK]'']
   \<and> greedy_loop ab_tokenizer ''abc'' 3 [''ab'', ''[UNK]''] = [''ab'', ''[UNK]'']
   \<and> greedy_tokenize ab_tokenizer ''abc'' = [''ab'', ''[UNK]'']"
proof -
  have v: "vocab ab_tokenizer = {''[PAD]'', ''[MASK]'', ''[UNK]'', ''[EOS]'', ''[NOAGENT]'', ''ab'', ''a''}"
    and u: "unk_token ab_tokenizer = ''[UNK]''"
    by (simp_all add: ab_tokenizer_def ab_vocab_def)
  have k3: "k = 3" if "2 < k \<and> k \<le> length ''abc''" for k :: nat
    using that by simp
  have far0: "\<forall>k. 2 < k \<and> k \<le> length ''abc'' \<longrightarrow> slice ''abc'' 0 k \<notin> vocab ab_tokenizer"
    by (auto dest!: k3 simp: slice_def v)
  have far2: "\<forall>k. 2 < k \<and> k \<le> length ''abc'' \<longrightarrow> slice ''abc'' 2 k \<notin> vocab ab_tokenizer"
    by (auto dest!: k3 simp: slice_def v)
  have s02: "slice ''abc'' 0 2 = ''ab''" by (simp add: slice_def)
  have inv: "''ab'' \<in> vocab ab_tokenizer" "''a'' \<in> vocab ab_tokenizer"
    "''abc'' \<notin> vocab ab_tokenizer" "''c'' \<notin> vocab ab_tokenizer"
    by (simp_all add: v)
  have a: "greedy_loop ab_tokenizer ''abc'' 0 [] = greedy_loop ab_tokenizer ''abc'' 2 [''ab'']"
    using greedy_longest_match [of 0 "''abc''" ab_tokenizer "[]" 2 ab_vocab] far0 inv
    by (simp add: s02)
  have b: "greedy_loop ab_tokenizer ''abc'' 2 [''ab'']
       = greedy_loop ab_tokenizer ''abc'' 3 [''ab'', ''[UNK]'']"
    using greedy_longest_match [of 2 "''abc''" ab_tokenizer "[''ab'']" 3 ab_vocab] far2
    by (simp add: u)
  have c: "greedy_loop ab_tokenizer ''abc'' 3 [''ab'', ''[UNK]''] = [''ab'', ''[UNK]'']"
    using greedy_longest_match [of 3 "''abc''" ab_tokenizer "[''ab'', ''[UNK]'']" 3 ab_vocab]
    by simp
  have e: "unk_token ab_tokenizer = ''[UNK]''"
    using greedy_longest_match [of 0 "''abc''" ab_tokenizer "[]" 2 ab_vocab] construct_ab
    by blast
  have d: "greedy_tokenize ab_tokenizer ''abc'' = [''ab'', ''[UNK]'']"
    using greedy_longest_match [of 0 "''abc''" ab_tokenizer "[]" 2 ab_vocab] e inv
    by blast
  from construct_ab a b c d show ?thesis by simp
qed

section \<open>Termination and size of the results\<close>

lemma greedy_fuel_enough:
  "length text - i \<le> n \<Longrightarrow> greedy_fuel n t text i tokens = Some (greedy_loop t text i tokens)"
proof (induction n arbitrary: i tokens)
  case 0
  then have "\<not> i < length text" by simp
  then show ?case
    by (subst greedy_fuel.simps) (simp add: greedy_loop_exit)
next
  case (Suc n)
  show ?case
  proof (cases "i < length text")
    case False
    then show ?thesis
      by (subst greedy_fuel.simps) (simp add: greedy_loop_exit)
  next
    case True
    with Suc.prems have one: "length text - Suc i \<le> n" by simp
    have more: "length text - (i + length m) \<le> n" if "m \<noteq> []" for m :: string
    proof -
      from that have "0 < length m" by simp
      with Suc.prems True show ?thesis by linarith
    qed
    have loop: "greedy_loop t text i tokens =
        (case greedy_find t text i (range_down (length text) i) of
           Some m \<Rightarrow>
             if m \<noteq> [] then greedy_loop t text (i + length m) (tokens @ [m])
             else greedy_loop t text (i + 1) (tokens @ [unk_token t])
         | None \<Rightarrow> greedy_loop t text (i + 1) (tokens @ [unk_token t]))"
      using True by (subst greedy_loop.simps) simp
    have fuel: "greedy_fuel (Suc n) t text i tokens =
        (case greedy_find t text i (range_down (length text) i) of
           Some m \<Rightarrow>
             if m \<noteq> [] then greedy_fuel n t text (i + length m) (tokens @ [m])
             else greedy_fuel n t text (i + 1) (tokens @ [unk_token t])
         | None \<Rightarrow> greedy_fuel n t text (i + 1) (tokens @ [unk_token t]))"
      using True by (subst greedy_fuel.simps) simp
    show ?thesis
      unfolding loop fuel
      by (simp add: Suc.IH [OF one] Suc.IH [OF more] split: option.splits)
  qed
qed

lemma length_greedy_loop:
  "length (greedy_loop t s i tokens) \<le> length tokens + (length s - i)"
proof (induction t s i tokens rule: greedy_loop.induct)
  case (1 t s i tokens)
  show ?case
  proof (cases "i < length s")
    case False
    then show ?thesis by (simp add: greedy_loop_exit)
  next
    case inside: True
    show ?thesis
    proof (cases "greedy_find t s i (range_down (length s) i)")
      case None
      with inside "1.IH"
      have "length (greedy_loop t s (i + 1) (tokens @ [unk_token t]))
          \<le> length (tokens @ [unk_token t]) + (length s - (i + 1))" by simp
      with inside None show ?thesis
        by (subst greedy_loop.simps) simp
    next
      case (Some m)
      show ?thesis
      proof (cases "m = []")
        case True
        with inside Some "1.IH"
        have "length (greedy_loop t s (i + 1) (tokens @ [unk_token t]))
          \<le> length (tokens @ [unk_token t]) + (length s - (i + 1))" by simp
        with inside Some True show ?thesis
          by (subst greedy_loop.simps) simp
      next
        case False
        with inside Some "1.IH"
        have "length (greedy_loop t s (i + length m) (tokens @ [m]))
          \<le> length (tokens @ [m]) + (length s - (i + length m))" by simp
        moreover from False have "0 < length m" by simp
        with inside have "length (tokens @ [m]) + (length s - (i + length m))
            \<le> length tokens + (length s - i)" by (simp, arith)
        ultimately have "length (greedy_loop t s (i + length m) (tokens @ [m]))
            \<le> length tokens + (length s - i)" by (rule order_trans)
        then show ?thesis
          using inside Some False by (subst greedy_loop.simps) simp
      qed
    qed
  qed
qed

lemma length_findall_smiles: "length (findall_smiles s) \<le> length s"
proof (induction s rule: findall_smiles.induct)
  case 1
  then show ?case by simp
next
  case (2 c cs)
  show ?case
  proof (cases "smiles_match (c # cs)")
    case None
    with "2.IH"(1) show ?thesis by simp
  next
    case (Some tok)
    then have "tok \<noteq> []" by (rule smiles_match_nonempty)
    then have "Suc (length cs) - length tok \<le> length cs"
      by (cases tok) simp_all
    with Some "2.IH"(2) show ?thesis by simp
  qed
qed

lemma split_from_nonempty: "p \<in> set (split_from cur s) \<Longrightarrow> p \<noteq> []"
proof (induction s arbitrary: cur)
  case Nil
  then show ?case by (simp split: if_splits)
next
  case (Cons c cs)
  then show ?case by (auto split: if_splits)
qed

lemma sum_length_split_from:
  "sum_list (map length (split_from cur s)) \<le> length cur + length s"
proof (induction s arbitrary: cur)
  case Nil
  then show ?case by simp
next
  case (Cons c cs)
  have a: "sum_list (map length (split_from [] cs)) \<le> length cs"
    using Cons.IH [of "[]"] by simp
  have b: "sum_list (map length (split_from (cur @ [c]) cs)) \<le> length cur + 1 + length cs"
    using Cons.IH [of "cur @ [c]"] by simp
  from a b show ?case by simp
qed

lemma length_strip: "length (strip s) \<le> length s"
proof -
  have "length (strip s) \<le> length (dropWhile isspace s)"
    unfolding strip_def using length_dropWhile_le [of isspace "rev (dropWhile isspace s)"]
    by simp
  also have "\<dots> \<le> length s" by (rule length_dropWhile_le)
  finally show ?thesis .
qed

lemma length_piece_tokens:
  assumes "p \<noteq> []"
  shows "length (piece_tokens t p) \<le> length p"
proof -
  from assms have "1 \<le> length p" by (cases p) simp_all
  moreover have "length (findall_smiles p) \<le> length p" by (rule length_findall_smiles)
  ultimately show ?thesis
    by (simp add: piece_tokens_def tokenize_smiles_def)
qed

lemma length_concat_pieces:
  "(\<And>p. p \<in> set ps \<Longrightarrow> p \<noteq> []) \<Longrightarrow>
   length (concat (map (piece_tokens t) ps)) \<le> sum_list (map length ps)"
proof (induction ps)
  case Nil
  then show ?case by simp
next
  case (Cons p ps)
  then have "length (piece_tokens t p) \<le> length p" by (simp add: length_piece_tokens)
  moreover from Cons have "length (concat (map (piece_tokens t) ps)) \<le> sum_list (map length ps)"
    by simp
  ultimately show ?case by simp
qed

lemma length_encode: "length (encode t s) \<le> length s"
proof -
  have "length (encode t s) = length (concat (map (piece_tokens t) (split (strip s))))"
    by (simp add: encode_eq)
  also have "\<dots> \<le> sum_list (map length (split (strip s)))"
    by (rule length_concat_pieces) (simp add: split_def split_from_nonempty)
  also have "\<dots> \<le> length (strip s)"
    using sum_length_split_from [of "[]" "strip s"] by (simp add: split_def)
  also have "\<dots> \<le> length s" by (rule length_strip)
  finally show ?thesis .
qed

text \<open>
  Claim C9. Every operation terminates on every input. The loop of the greedy tokenizer
  moves its position forward by at least one in each iteration, so it is left after at most
  \<open>len(text)\<close> iterations: run with that bound it returns the result of the loop. Its output,
  the output of the SMILES segmenter and the output of \<^verbatim>\<open>encode\<close> are no longer than the
  input, and \<^verbatim>\<open>decode\<close> returns a string. The functions of this theory are total, each
  recursion with its termination proof.
\<close>

theorem operations_terminate:
  "greedy_fuel (length text) t text 0 [] = Some (greedy_tokenize t text)
   \<and> length (greedy_tokenize t text) \<le> length text
   \<and> length (tokenize_smiles text) \<le> length text
   \<and> length (encode t text) \<le> length text
   \<and> (\<exists>r. decode t ids = Inr r)"
proof -
  have "greedy_fuel (length text) t text 0 [] = Some (greedy_loop t text 0 [])"
    by (rule greedy_fuel_enough) simp
  moreover have "length (greedy_loop t text 0 []) \<le> length text"
    using length_greedy_loop [of t "text" 0 "[]"] by simp
  ultimately show ?thesis
    by (simp add: greedy_tokenize_def tokenize_smiles_def length_findall_smiles length_encode
        decode_eq_join)
qed

section \<open>The SMILES segmenter\<close>

lemmas smiles_defs = smiles_match_def bracket_atom_def elements_def single_char_def in_range_def

lemma smiles_match_gt:
  "smiles_match (CHR ''>'' # s) = Some (if prefix ''>'' s then ''>>'' else ''>'')"
  by (simp add: smiles_defs)

lemma findall_gt:
  "findall_smiles (CHR ''>'' # s) =
     (if prefix ''>'' s then ''>>'' # findall_smiles (tl s) else ''>'' # findall_smiles s)"
  by (cases s) (simp_all add: smiles_match_gt del: findall_smiles.simps(2) add: findall_smiles.simps(2) [of "CHR ''>''"])

lemma findall_J: "findall_smiles (CHR ''J'' # s) = findall_smiles s"
  by (simp add: smiles_defs)

lemma smiles_match_single:
  "smiles_match s = Some [c] \<Longrightarrow> single_char c"
  by (auto simp: smiles_match_def bracket_atom_def elements_def Let_def
      split: if_splits option.splits list.splits)

lemma findall_single: "[c] \<in> set (findall_smiles s) \<Longrightarrow> single_char c"
proof (induction s rule: findall_smiles.induct)
  case 1
  then show ?case by simp
next
  case (2 d ds)
  show ?case
  proof (cases "smiles_match (d # ds)")
    case None
    with 2 show ?thesis by simp
  next
    case (Some tok)
    with "2.prems" have "[c] = tok \<or> [c] \<in> set (findall_smiles (drop (length tok) (d # ds)))"
      by simp
    then show ?thesis
    proof
      assume "[c] = tok"
      with Some show ?thesis by (simp add: smiles_match_single)
    next
      assume "[c] \<in> set (findall_smiles (drop (length tok) (d # ds)))"
      with Some "2.IH"(2) show ?thesis by simp
    qed
  qed
qed

lemma single_char_gt: "single_char (CHR ''>'')"
  by (simp add: single_char_def)

text \<open>
  Claim C2 says that the SMILES segmenter never emits the token \<^verbatim>\<open>>\<close>. The class of the
  single-character alternative lists \<^verbatim>\<open>>\<close> (after the escaped hyphen), and the segmenter
  emits it:
\<close>

theorem tokenize_smiles_emits_gt:
  "tokenize_smiles ''C>N'' = [''C'', ''>'', ''N'']"
  by (simp add: tokenize_smiles_def smiles_defs)

text \<open>The class, character by character.\<close>

lemma single_char_iff:
  "single_char c \<longleftrightarrow> c \<in> set (''BCDEFGHI'' @ ''KLMNOPQRSTUVWXYZ'' @ ''bcdefghi'' @
     ''klmnopqrstuvwxyz'' @ ''0123456789'' @ ''=#$%@+->()/'' @ [CHR 0x5C] @ ''.'')"
  by (cases c) (auto simp: single_char_def in_range_def)

text \<open>
  Claim C2, amended. A \<^verbatim>\<open>>\<close> that the scan reaches is never dropped: it is emitted as the
  marker \<^verbatim>\<open>>>\<close> when another \<^verbatim>\<open>>\<close> follows it, and as the one-character token \<^verbatim>\<open>>\<close>
  otherwise. The single-character alternative matches the upper-case letters B to I and K to
  Z, the lower-case letters b to i and k to z, the digits, and the characters
  \<^verbatim>\<open>= # $ % @ + - > ( ) / \ .\<close>, which include \<^verbatim>\<open>>\<close>; every one-character token emitted
  is from that class, and a character outside every alternative, such as J, is dropped.
\<close>

theorem tokenize_smiles_keeps_gt:
  "tokenize_smiles (CHR ''>'' # s) =
     (if prefix ''>'' s then ''>>'' # tokenize_smiles (tl s) else ''>'' # tokenize_smiles s)
   \<and> (single_char c \<longleftrightarrow> c \<in> set (''BCDEFGHI'' @ ''KLMNOPQRSTUVWXYZ'' @ ''bcdefghi'' @
         ''klmnopqrstuvwxyz'' @ ''0123456789'' @ ''=#$%@+->()/'' @ [CHR 0x5C] @ ''.''))
   \<and> ([c] \<in> set (tokenize_smiles s) \<longrightarrow> single_char c)
   \<and> tokenize_smiles (CHR ''J'' # s) = tokenize_smiles s"
proof -
  have "[c] \<in> set (tokenize_smiles s) \<longrightarrow> single_char c"
    using findall_single [of c s] by (simp add: tokenize_smiles_def)
  moreover note single_char_iff [of c]
  ultimately show ?thesis
    by (simp only: tokenize_smiles_def findall_gt findall_J)
qed

theorem tokenize_smiles_keeps_gt_witness:
  "tokenize_smiles ''>>C>J'' = [''>>'', ''C'', ''>'']
   \<and> tokenize_smiles ''>C>J'' = [''>'', ''C'', ''>'']
   \<and> single_char (CHR ''C'')
   \<and> tokenize_smiles ''J>C>J'' = [''>'', ''C'', ''>'']"
proof -
  note inst = tokenize_smiles_keeps_gt [of "''>C>J''" "CHR ''C''"]
  have inner: "tokenize_smiles ''>C>J'' = [''>'', ''C'', ''>'']"
    and rest: "tokenize_smiles ''C>J'' = [''C'', ''>'']"
    by (simp_all add: tokenize_smiles_def smiles_defs)
  from inst have "tokenize_smiles ''>>C>J'' = ''>>'' # tokenize_smiles ''C>J''"
    by simp
  with rest have a: "tokenize_smiles ''>>C>J'' = [''>>'', ''C'', ''>'']" by simp
  from inner have "[CHR ''C''] \<in> set (tokenize_smiles ''>C>J'')" by simp
  with inst have b: "single_char (CHR ''C'')" by blast
  from inst inner have c: "tokenize_smiles ''J>C>J'' = [''>'', ''C'', ''>'']" by simp
  from a inner b c show ?thesis by simp
qed

section \<open>Encoding and decoding again\<close>

text \<open>With pairwise distinct ids the inverted dictionary takes every id back to its token.\<close>

lemma map_of_fold_update:
  "map_of (fold (\<lambda>(k, v) acc. AList.update v k acc) d acc)
     = map_of acc ++ map_of (rev (map (\<lambda>(k, v). (v, k)) d))"
proof (induction d arbitrary: acc)
  case Nil
  then show ?case by simp
next
  case (Cons p d)
  obtain k v where p: "p = (k, v)" by (cases p)
  have "map_of (fold (\<lambda>(k, v) acc. AList.update v k acc) (p # d) acc)
      = map_of (AList.update v k acc) ++ map_of (rev (map (\<lambda>(k, v). (v, k)) d))"
    using Cons.IH [of "AList.update v k acc"] by (simp add: p)
  also have "\<dots> = (map_of acc ++ [v \<mapsto> k]) ++ map_of (rev (map (\<lambda>(k, v). (v, k)) d))"
    by (simp add: update_conv')
  also have "\<dots> = map_of acc ++ map_of (rev (map (\<lambda>(k, v). (v, k)) (p # d)))"
    by (simp add: p map_add_assoc)
  finally show ?case .
qed

lemma invert_dict_lookup:
  assumes "distinct (map snd d)" and "(k, v) \<in> set d"
  shows "map_of (invert_dict d) v = Some k"
proof -
  let ?sw = "rev (map (\<lambda>(k, v). (v, k)) d)"
  have "map fst ?sw = rev (map snd d)"
    by (simp add: rev_map case_prod_beta comp_def)
  with assms(1) have "distinct (map fst ?sw)" by simp
  moreover have "(v, k) \<in> set ?sw"
  proof -
    from assms(2) have "(\<lambda>(k, v). (v, k)) (k, v) \<in> (\<lambda>(k, v). (v, k)) ` set d"
      by (rule imageI)
    then show ?thesis by simp
  qed
  ultimately have "map_of ?sw v = Some k" by (rule map_of_is_SomeI)
  then show ?thesis
    by (simp add: invert_dict_def map_of_fold_update)
qed

lemma same_value_same_key:
  assumes "distinct (map snd d)" and "(a, v) \<in> set d" and "(b, v) \<in> set d"
  shows "a = b"
proof -
  from assms(1) have "inj_on snd (set d)" by (simp add: distinct_map)
  moreover have "snd (a, v) = snd (b, v)" by simp
  ultimately have "(a, v) = (b, v)" using assms(2,3) by (rule inj_onD)
  then show ?thesis by simp
qed

lemma roundtrip_token:
  assumes c: "construct tti = Inr t" and d: "distinct (map snd tti)"
    and k: "k \<in> set (map fst tti)" and np: "k \<noteq> ''[PAD]''"
  shows "lookup_id t k \<noteq> pad_token_id t \<and> lookup_token t (lookup_id t k) = k"
proof -
  have tt: "token_to_id t = tti" and it: "id_to_token t = invert_dict tti"
    and pad: "map_of tti ''[PAD]'' = Some (pad_token_id t)"
    using c by (rule construct_Inr_fields)+
  from k have "map_of tti k \<noteq> None"
    unfolding absent_iff [symmetric] by simp
  then obtain v where v: "map_of tti k = Some v"
    by (cases "map_of tti k") simp_all
  then have kv: "(k, v) \<in> set tti" by (rule map_of_SomeD)
  from pad have pv: "(''[PAD]'', pad_token_id t) \<in> set tti" by (rule map_of_SomeD)
  have id: "lookup_id t k = v" by (simp add: lookup_id_def tt v)
  have "v \<noteq> pad_token_id t"
  proof
    assume "v = pad_token_id t"
    with pv have "(''[PAD]'', v) \<in> set tti" by simp
    with d kv have "k = ''[PAD]''" by (rule same_value_same_key)
    with np show False by simp
  qed
  moreover have "lookup_token t v = k"
    using invert_dict_lookup [OF d kv] by (simp add: lookup_token_def it)
  ultimately show ?thesis by (simp add: id)
qed

lemma kept_tokens_roundtrip:
  assumes "construct tti = Inr t" and "distinct (map snd tti)"
    and "set toks \<subseteq> set (map fst tti)" and "''[PAD]'' \<notin> set toks"
  shows "kept_tokens t (map (lookup_id t) toks) = toks"
  using assms(3,4)
proof (induction toks)
  case Nil
  then show ?case by (simp add: kept_tokens_def)
next
  case (Cons k toks)
  then have "k \<in> set (map fst tti)" and "k \<noteq> ''[PAD]''" by auto
  with assms(1,2) have "lookup_id t k \<noteq> pad_token_id t \<and> lookup_token t (lookup_id t k) = k"
    by (rule roundtrip_token)
  moreover from Cons have "kept_tokens t (map (lookup_id t) toks) = toks" by simp
  ultimately show ?case by (simp add: kept_tokens_def)
qed

lemmas rc_defs = is_reaction_class_def reaction_class_match_def digits1_def is_digit_def
  at_dollar_def

lemma split_reaction: "split (strip ''CCO>>CCCBr 2.12.13'') = [''CCO>>CCCBr'', ''2.12.13'']"
  by (simp add: split_def strip_def isspace_def)

lemma findall_reaction:
  "tokenize_smiles ''CCO>>CCCBr'' = [''C'', ''C'', ''O'', ''>>'', ''C'', ''C'', ''C'', ''Br'']"
  by (simp add: tokenize_smiles_def smiles_defs)

lemma join_reaction_tokens:
  "join_tokens [''C'', ''C'', ''O'', ''>>'', ''C'', ''C'', ''C'', ''Br'', ''2.12.13'']
     = ''CCO>>CCCBr 2.12.13''"
  by (simp add: join_tokens_def needs_space_def startswith_def rc_defs)

lemma join_reaction_whole:
  "join_tokens [''CCO>>CCCBr'', ''2.12.13''] = ''CCO>>CCCBr 2.12.13''"
  by (simp add: join_tokens_def needs_space_def startswith_def rc_defs)

lemma piece_tokens_class: "piece_tokens t ''2.12.13'' = [''2.12.13'']"
  by (simp add: piece_tokens_def rc_defs)

lemma piece_tokens_smiles:
  "piece_tokens t ''CCO>>CCCBr'' =
     (if ''CCO>>CCCBr'' \<in> vocab t then [''CCO>>CCCBr'']
      else [''C'', ''C'', ''O'', ''>>'', ''C'', ''C'', ''C'', ''Br''])"
  by (simp add: piece_tokens_def findall_reaction) (simp add: rc_defs)

text \<open>
  Claim C1 says that a vocabulary with the five required tokens, \<^verbatim>\<open>>>\<close> and the single
  characters of \<^verbatim>\<open>CCO>>CCCBr\<close> is enough for \<^verbatim>\<open>decode(encode("CCO>>CCCBr 2.12.13"))\<close> to
  give the input back. With exactly that vocabulary the segmenter's token \<^verbatim>\<open>Br\<close> and the
  reaction class \<^verbatim>\<open>2.12.13\<close> have no id, both are encoded as the unknown id, and the
  decoder writes \<^verbatim>\<open>[UNK]\<close> for them:
\<close>

theorem roundtrip_unknown_tokens:
  "construct example_vocab = Inr example_tokenizer
   \<and> decode example_tokenizer (encode example_tokenizer ''CCO>>CCCBr 2.12.13'')
       = Inr ''CCO>>CCC [UNK] [UNK]''"
proof -
  have "encode example_tokenizer ''CCO>>CCCBr 2.12.13'' = [6, 6, 7, 5, 6, 6, 6, 2, 2]"
    unfolding encode_eq split_reaction
    by (simp add: piece_tokens_class piece_tokens_smiles)
       (simp add: example_tokenizer_def example_vocab_def lookup_id_def)
  moreover have "decode example_tokenizer [6, 6, 7, 5, 6, 6, 6, 2, 2] = Inr ''CCO>>CCC [UNK] [UNK]''"
    unfolding decode_eq_join
    by (simp add: kept_tokens_def lookup_token_def example_tokenizer_def join_tokens_def
        needs_space_def startswith_def rc_defs)
  ultimately show ?thesis by (simp add: construct_example)
qed

text \<open>
  Claim C1, amended. For a tokenizer constructed from a vocabulary with pairwise distinct
  ids that holds the five required tokens and the tokens \<^verbatim>\<open>C\<close>, \<^verbatim>\<open>O\<close>, \<^verbatim>\<open>>>\<close>,
  \<^verbatim>\<open>Br\<close> and \<^verbatim>\<open>2.12.13\<close>, \<^verbatim>\<open>decode(encode("CCO>>CCCBr 2.12.13"))\<close> is the string
  \<^verbatim>\<open>CCO>>CCCBr 2.12.13\<close>.
\<close>

theorem roundtrip_reaction:
  assumes "construct tti = Inr t" and "distinct (map snd tti)"
    and "{''C'', ''O'', ''>>'', ''Br'', ''2.12.13''} \<subseteq> set (map fst tti)"
  shows "decode t (encode t ''CCO>>CCCBr 2.12.13'') = Inr ''CCO>>CCCBr 2.12.13''"
proof -
  have v: "vocab t = set (map fst tti)"
    using assms(1) by (rule construct_Inr_fields)
  let ?toks = "concat (map (piece_tokens t) [''CCO>>CCCBr'', ''2.12.13''])"
  have enc: "encode t ''CCO>>CCCBr 2.12.13'' = map (lookup_id t) ?toks"
    unfolding encode_eq split_reaction ..
  have sub: "set ?toks \<subseteq> set (map fst tti)"
    using assms(3) by (auto simp: piece_tokens_class piece_tokens_smiles v)
  have nopad: "''[PAD]'' \<notin> set ?toks"
    by (simp add: piece_tokens_class piece_tokens_smiles)
  have "kept_tokens t (map (lookup_id t) ?toks) = ?toks"
    using assms(1,2) sub nopad by (rule kept_tokens_roundtrip)
  moreover have "join_tokens ?toks = ''CCO>>CCCBr 2.12.13''"
    by (simp add: piece_tokens_class piece_tokens_smiles join_reaction_tokens
        join_reaction_whole)
  ultimately show ?thesis
    unfolding enc decode_eq_join by simp
qed

lemma construct_reaction: "construct reaction_vocab = Inr reaction_tokenizer"
  by (simp add: construct_def require_token_def reaction_vocab_def reaction_tokenizer_def
      invert_dict_def)

theorem roundtrip_reaction_witness:
  "construct reaction_vocab = Inr reaction_tokenizer
   \<and> decode reaction_tokenizer (encode reaction_tokenizer ''CCO>>CCCBr 2.12.13'')
       = Inr ''CCO>>CCCBr 2.12.13''"
proof -
  have d: "distinct (map snd reaction_vocab)"
    by (simp add: reaction_vocab_def)
  have k: "{''C'', ''O'', ''>>'', ''Br'', ''2.12.13''} \<subseteq> set (map fst reaction_vocab)"
    by (simp add: reaction_vocab_def)
  from construct_reaction d k
  have "decode reaction_tokenizer (encode reaction_tokenizer ''CCO>>CCCBr 2.12.13'')
       = Inr ''CCO>>CCCBr 2.12.13''"
    by (rule roundtrip_reaction)
  with construct_reaction show ?thesis by simp
qed

section \<open>The reaction-class recogniser\<close>

lemma dot_not_digit: "\<not> is_digit (CHR ''.'')" and newline_not_digit: "\<not> is_digit (CHR 0x0A)"
  by (simp_all add: is_digit_def)

lemma split_dots_bad_group:
  "\<not> list_all is_digit cur \<Longrightarrow>
   \<not> list_all (\<lambda>g. g \<noteq> [] \<and> list_all is_digit g) (split_dots cur s)"
  by (induction s arbitrary: cur) simp_all

lemma split_dots_scan:
  "list_all is_digit cur \<Longrightarrow>
   list_all (\<lambda>g. g \<noteq> [] \<and> list_all is_digit g) (split_dots cur s) = dg_scan (cur \<noteq> []) s"
proof (induction s arbitrary: cur)
  case Nil
  then show ?case by simp
next
  case (Cons c cs)
  show ?case
  proof (cases "is_digit c")
    case True
    then have "c \<noteq> CHR ''.''" using dot_not_digit by auto
    moreover from True Cons.prems have "list_all is_digit (cur @ [c])" by simp
    then have "list_all (\<lambda>g. g \<noteq> [] \<and> list_all is_digit g) (split_dots (cur @ [c]) cs)
        = dg_scan (cur @ [c] \<noteq> []) cs" by (rule Cons.IH)
    ultimately show ?thesis using True by simp
  next
    case False
    show ?thesis
    proof (cases "c = CHR ''.''")
      case True
      have "list_all (\<lambda>g. g \<noteq> [] \<and> list_all is_digit g) (split_dots [] cs)
          = dg_scan ([] \<noteq> ([]::string)) cs" by (rule Cons.IH) simp
      with True False Cons.prems show ?thesis by simp
    next
      case other: False
      from False have "\<not> list_all is_digit (cur @ [c])" by simp
      then have "\<not> list_all (\<lambda>g. g \<noteq> [] \<and> list_all is_digit g) (split_dots (cur @ [c]) cs)"
        by (rule split_dots_bad_group)
      with False other show ?thesis by simp
    qed
  qed
qed

lemma digit_groups_scan: "digit_groups s = dg_scan False s"
  using split_dots_scan [of "[]" s] by (simp add: digit_groups_def)

lemma match_Nil: "reaction_class_match [] = False"
  by (simp add: reaction_class_match_def digits1_def)

lemma match_Cons: "reaction_class_match (c # cs) = (is_digit c \<and> after_digit cs)"
  by (simp add: reaction_class_match_def digits1_def after_digit_def)

lemma after_digit_Nil: "after_digit [] = True"
  by (simp add: after_digit_def at_dollar_def)

lemma after_digit_Cons:
  "after_digit (c # cs) =
     (if is_digit c then after_digit cs
      else if c = CHR ''.'' then reaction_class_match cs
      else c = CHR 0x0A \<and> cs = [])"
  by (simp add: after_digit_def reaction_class_match_def at_dollar_def split: option.splits)

lemma snoc_newline_Cons:
  "(\<exists>p. c # cs = p @ [CHR 0x0A] \<and> P p) \<longleftrightarrow>
     (c = CHR 0x0A \<and> cs = [] \<and> P []) \<or> (\<exists>p. cs = p @ [CHR 0x0A] \<and> P (c # p))"
proof
  assume "\<exists>p. c # cs = p @ [CHR 0x0A] \<and> P p"
  then obtain p where p: "c # cs = p @ [CHR 0x0A]" "P p" by blast
  show "(c = CHR 0x0A \<and> cs = [] \<and> P []) \<or> (\<exists>p. cs = p @ [CHR 0x0A] \<and> P (c # p))"
  proof (cases p)
    case Nil
    with p show ?thesis by simp
  next
    case (Cons d p')
    with p show ?thesis by simp
  qed
next
  assume "(c = CHR 0x0A \<and> cs = [] \<and> P []) \<or> (\<exists>p. cs = p @ [CHR 0x0A] \<and> P (c # p))"
  then show "\<exists>p. c # cs = p @ [CHR 0x0A] \<and> P p"
  proof
    assume "c = CHR 0x0A \<and> cs = [] \<and> P []"
    then have "c # cs = [] @ [CHR 0x0A] \<and> P []" by simp
    then show ?thesis by blast
  next
    assume "\<exists>p. cs = p @ [CHR 0x0A] \<and> P (c # p)"
    then obtain p where "cs = p @ [CHR 0x0A]" "P (c # p)" by blast
    then have "c # cs = (c # p) @ [CHR 0x0A] \<and> P (c # p)" by simp
    then show ?thesis by blast
  qed
qed

lemma match_scan:
  "(reaction_class_match s \<longleftrightarrow>
      dg_scan False s \<or> (\<exists>p. s = p @ [CHR 0x0A] \<and> dg_scan False p))
   \<and> (after_digit s \<longleftrightarrow>
      dg_scan True s \<or> (\<exists>p. s = p @ [CHR 0x0A] \<and> dg_scan True p))"
proof (induction s)
  case Nil
  show ?case by (simp add: match_Nil after_digit_Nil)
next
  case (Cons c cs)
  show ?case
  proof (cases "is_digit c")
    case True
    then have "c \<noteq> CHR 0x0A" using newline_not_digit by auto
    with True Cons show ?thesis
      by (simp add: match_Cons after_digit_Cons snoc_newline_Cons)
  next
    case False
    show ?thesis
    proof (cases "c = CHR ''.''")
      case True
      with False Cons show ?thesis
        by (simp add: match_Cons after_digit_Cons snoc_newline_Cons)
    next
      case other: False
      with False show ?thesis
        by (simp add: match_Cons after_digit_Cons snoc_newline_Cons)
    qed
  qed
qed

text \<open>What \<^verbatim>\<open>is_reaction_class\<close> accepts: the strings of digit groups, and those strings
  followed by one newline.\<close>

lemma is_reaction_class_iff:
  "is_reaction_class s \<longleftrightarrow>
     digit_groups s \<or> (\<exists>p. s = p @ [CHR 0x0A] \<and> digit_groups p)"
  using match_scan [of s] by (simp add: is_reaction_class_def digit_groups_scan)

text \<open>A piece that \<^verbatim>\<open>encode\<close> tests has no white space in it, so there the
  recogniser accepts the strings of digit groups and nothing else.\<close>

lemma split_from_no_space:
  "list_all (\<lambda>c. \<not> isspace c) cur \<Longrightarrow> p \<in> set (split_from cur s) \<Longrightarrow>
   list_all (\<lambda>c. \<not> isspace c) p"
proof (induction s arbitrary: cur)
  case Nil
  then show ?case by (simp split: if_splits)
next
  case (Cons c cs)
  show ?case
  proof (cases "isspace c")
    case True
    with Cons.prems have "p = cur \<or> p \<in> set (split_from [] cs)"
      by (auto split: if_splits)
    then show ?thesis
    proof
      assume "p = cur"
      with Cons.prems(1) show ?thesis by simp
    next
      assume "p \<in> set (split_from [] cs)"
      with Cons.IH [of "[]"] show ?thesis by simp
    qed
  next
    case False
    with Cons.prems have "list_all (\<lambda>c. \<not> isspace c) (cur @ [c])"
      and "p \<in> set (split_from (cur @ [c]) cs)" by simp_all
    then show ?thesis by (rule Cons.IH)
  qed
qed

lemma piece_reaction_class:
  assumes "p \<in> set (split s)"
  shows "is_reaction_class p \<longleftrightarrow> digit_groups p"
proof -
  from assms have ns: "list_all (\<lambda>c. \<not> isspace c) p"
    using split_from_no_space [of "[]" p s] by (simp add: split_def)
  have "\<not> (\<exists>q. p = q @ [CHR 0x0A] \<and> digit_groups q)"
  proof
    assume "\<exists>q. p = q @ [CHR 0x0A] \<and> digit_groups q"
    then obtain q where "p = q @ [CHR 0x0A]" by blast
    with ns have "\<not> isspace (CHR 0x0A)" by simp
    then show False by (simp add: isspace_def)
  qed
  then show ?thesis unfolding is_reaction_class_iff by blast
qed

text \<open>
  Claim C3 says that \<^verbatim>\<open>is_reaction_class(s)\<close> holds if and only if \<open>s\<close> is one or more
  groups of digits separated by single dots, with nothing before or after. The examples of
  the claim come out as it says, but \<^verbatim>\<open>$\<close> also matches before a newline that ends the
  string: \<^verbatim>\<open>is_reaction_class("7\n")\<close> is true, and \<^verbatim>\<open>"7\n"\<close> is not a string of digit
  groups.
\<close>

theorem is_reaction_class_trailing_newline:
  "is_reaction_class [CHR ''7'', CHR 0x0A] \<and> \<not> digit_groups [CHR ''7'', CHR 0x0A]
   \<and> is_reaction_class ''2.12.13'' \<and> is_reaction_class ''7''
   \<and> \<not> is_reaction_class '''' \<and> \<not> is_reaction_class ''2..3''
   \<and> \<not> is_reaction_class ''2.a'' \<and> \<not> is_reaction_class ''CCO''
   \<and> \<not> is_reaction_class ''1.2..3''"
  by (simp add: rc_defs digit_groups_def)

end
